theory Spec2Isabelle
  imports Main "HOL-Library.AList" "HOL-Library.Multiset" "HOL-Library.Sublist"
begin

section \<open>The cache layer of lotus (\<open>lotus/cache.py\<close>)\<close>

text \<open>
  The module defines an abstract class \<open>Cache\<close> holding \<open>max_size\<close>, two backends
  (\<open>SQLiteCache\<close>, \<open>InMemoryCache\<close>) and the decorator \<open>require_cache_enabled\<close> that both
  backends put on \<open>get\<close> and \<open>insert\<close>.

  Conventions of the embedding:
  \<^item> a method is a function from the object (\<open>self\<close>) and its arguments to the pair of
    the returned value and the object after the call; Python's \<open>None\<close> result is \<open>None\<close>;
  \<^item> the process-wide setting \<open>lotus.settings.enable_cache\<close>, read by the decorator at
    every call, is the argument \<open>enable_cache\<close>;
  \<^item> the value \<open>int(time.time())\<close> that \<open>_get_time\<close> returns during a call is the
    argument \<open>now\<close> of that call;
  \<^item> \<open>pickle.dumps\<close> and \<open>pickle.loads\<close> are the arguments \<open>dumps\<close> and \<open>loads\<close>;
  \<^item> \<open>max_size\<close> is a Python \<open>int\<close>, hence an \<open>int\<close> here: nothing in the module keeps
    it positive.
\<close>

subsection \<open>\<open>require_cache_enabled\<close>\<close>

definition require_cache_enabled ::
  "bool \<Rightarrow> ('s \<Rightarrow> 'a \<Rightarrow> 'r option \<times> 's) \<Rightarrow> 's \<Rightarrow> 'a \<Rightarrow> 'r option \<times> 's" where
  "require_cache_enabled enable_cache func self args =
     (if \<not> enable_cache then (None, self) else func self args)"

subsection \<open>\<open>Cache\<close>\<close>

record Cache =
  max_size :: int

subsection \<open>\<open>SQLiteCache\<close>\<close>

text \<open>
  The table \<open>cache (key TEXT PRIMARY KEY, value BLOB, last_accessed INTEGER)\<close> is the list
  of its rows in rowid order, which is the order in which SQLite scans it.
  \<^item> \<open>INSERT OR REPLACE\<close> removes the row that has the key, if there is one, and adds the
    new row under a fresh rowid, larger than every rowid in the table: the new row is
    the last of the list.
  \<^item> \<open>UPDATE\<close> rewrites a row in place.
  \<^item> \<open>SELECT key FROM cache ORDER BY last_accessed ASC LIMIT n\<close> yields the keys of the
    first \<open>n\<close> rows of the table sorted by \<open>last_accessed\<close>; rows with equal
    \<open>last_accessed\<close> come in scan order (SQLite sorts on the pair of the \<open>ORDER BY\<close> value
    and the sequence number of the row in the scan), which is what the stable
    \<^const>\<open>sort_key\<close> computes.
\<close>

record 'b row =
  key :: string
  val :: 'b
  last_accessed :: int

record 'b SQLiteCache = Cache +
  rows :: "'b row list"

text \<open>
  \<open>__init__\<close> opens the database file and creates the table only if it does not exist:
  \<open>db\<close> is the content of the table found in the file (\<open>[]\<close> for a new file).
\<close>

definition SQLiteCache_init :: "int \<Rightarrow> 'b row list \<Rightarrow> 'b SQLiteCache" where
  "SQLiteCache_init max_size0 db = \<lparr>max_size = max_size0, rows = db\<rparr>"

definition SQLiteCache_get_body ::
  "('b \<Rightarrow> 'v) \<Rightarrow> int \<Rightarrow> 'b SQLiteCache \<Rightarrow> string \<Rightarrow> 'v option \<times> 'b SQLiteCache" where
  "SQLiteCache_get_body loads now self k =
     (case find (\<lambda>r. key r = k) (rows self) of
        Some result \<Rightarrow>
          (Some (loads (val result)),
           self\<lparr>rows := map (\<lambda>r. if key r = k then r\<lparr>last_accessed := now\<rparr> else r)
                            (rows self)\<rparr>)
      | None \<Rightarrow> (None, self))"

definition SQLiteCache_get ::
  "('b \<Rightarrow> 'v) \<Rightarrow> bool \<Rightarrow> int \<Rightarrow> 'b SQLiteCache \<Rightarrow> string \<Rightarrow> 'v option \<times> 'b SQLiteCache" where
  "SQLiteCache_get loads enable_cache now =
     require_cache_enabled enable_cache (SQLiteCache_get_body loads now)"

definition insert_or_replace :: "'b row \<Rightarrow> 'b row list \<Rightarrow> 'b row list" where
  "insert_or_replace new table = filter (\<lambda>r. key r \<noteq> key new) table @ [new]"

definition SQLiteCache_enforce_size_limit :: "'b SQLiteCache \<Rightarrow> 'b SQLiteCache" where
  "SQLiteCache_enforce_size_limit self =
     (let count = int (length (rows self)) in
      if count > max_size self then
        (let num_to_delete = count - max_size self;
             victims = map key (take (nat num_to_delete) (sort_key last_accessed (rows self)))
         in self\<lparr>rows := filter (\<lambda>r. key r \<notin> set victims) (rows self)\<rparr>)
      else self)"

definition SQLiteCache_insert_body ::
  "('v \<Rightarrow> 'b) \<Rightarrow> int \<Rightarrow> 'b SQLiteCache \<Rightarrow> string \<times> 'v \<Rightarrow> unit option \<times> 'b SQLiteCache" where
  "SQLiteCache_insert_body dumps now self kv =
     (let pickled_value = dumps (snd kv);
          new = \<lparr>key = fst kv, val = pickled_value, last_accessed = now\<rparr>
      in (None,
          SQLiteCache_enforce_size_limit (self\<lparr>rows := insert_or_replace new (rows self)\<rparr>)))"

definition SQLiteCache_insert ::
  "('v \<Rightarrow> 'b) \<Rightarrow> bool \<Rightarrow> int \<Rightarrow> 'b SQLiteCache \<Rightarrow> string \<times> 'v
     \<Rightarrow> unit option \<times> 'b SQLiteCache" where
  "SQLiteCache_insert dumps enable_cache now =
     require_cache_enabled enable_cache (SQLiteCache_insert_body dumps now)"

definition SQLiteCache_reset :: "'b SQLiteCache \<Rightarrow> int option \<Rightarrow> 'b SQLiteCache" where
  "SQLiteCache_reset self new_max_size =
     (let self1 = self\<lparr>rows := []\<rparr>
      in case new_max_size of Some m \<Rightarrow> self1\<lparr>max_size := m\<rparr> | None \<Rightarrow> self1)"

subsection \<open>\<open>InMemoryCache\<close>\<close>

text \<open>
  The \<open>OrderedDict\<close> is the list of its items in the order of the dictionary.
  \<open>d[key] = value\<close> is \<^const>\<open>AList.update\<close>: it replaces the value of a present key where
  the key stands, and puts a new key last. \<open>d.get(key)\<close> is \<^const>\<open>map_of\<close>, which changes
  nothing. \<open>d.popitem(last=False)\<close> removes the first item; it is called on a
  dictionary that has just received an item.
\<close>

record 'v InMemoryCache = Cache +
  cache :: "(string \<times> 'v) list"

definition InMemoryCache_init :: "int \<Rightarrow> 'v InMemoryCache" where
  "InMemoryCache_init max_size0 = \<lparr>max_size = max_size0, cache = []\<rparr>"

definition InMemoryCache_get_body ::
  "'v InMemoryCache \<Rightarrow> string \<Rightarrow> 'v option \<times> 'v InMemoryCache" where
  "InMemoryCache_get_body self k = (map_of (cache self) k, self)"

definition InMemoryCache_get ::
  "bool \<Rightarrow> 'v InMemoryCache \<Rightarrow> string \<Rightarrow> 'v option \<times> 'v InMemoryCache" where
  "InMemoryCache_get enable_cache = require_cache_enabled enable_cache InMemoryCache_get_body"

definition InMemoryCache_insert_body ::
  "'v InMemoryCache \<Rightarrow> string \<times> 'v \<Rightarrow> unit option \<times> 'v InMemoryCache" where
  "InMemoryCache_insert_body self kv =
     (let self1 = self\<lparr>cache := AList.update (fst kv) (snd kv) (cache self)\<rparr>
      in if int (length (cache self1)) > max_size self1
         then (None, self1\<lparr>cache := tl (cache self1)\<rparr>)
         else (None, self1))"

definition InMemoryCache_insert ::
  "bool \<Rightarrow> 'v InMemoryCache \<Rightarrow> string \<times> 'v \<Rightarrow> unit option \<times> 'v InMemoryCache" where
  "InMemoryCache_insert enable_cache =
     require_cache_enabled enable_cache InMemoryCache_insert_body"

definition InMemoryCache_reset :: "'v InMemoryCache \<Rightarrow> int option \<Rightarrow> 'v InMemoryCache" where
  "InMemoryCache_reset self new_max_size =
     (let self1 = self\<lparr>cache := []\<rparr>
      in case new_max_size of Some m \<Rightarrow> self1\<lparr>max_size := m\<rparr> | None \<Rightarrow> self1)"

subsection \<open>Callers\<close>

text \<open>
  A caller holds one cache object and calls its methods one after the other. The
  sequences of \<open>insert\<close> calls that the properties speak of are folds of \<open>insert\<close> over
  the arguments of the calls; for the durable backend each call comes with the clock
  value it reads.
\<close>

definition InMemoryCache_inserts ::
  "bool \<Rightarrow> 'v InMemoryCache \<Rightarrow> (string \<times> 'v) list \<Rightarrow> 'v InMemoryCache" where
  "InMemoryCache_inserts enable_cache self kvs =
     foldl (\<lambda>s kv. snd (InMemoryCache_insert enable_cache s kv)) self kvs"

definition SQLiteCache_inserts ::
  "('v \<Rightarrow> 'b) \<Rightarrow> bool \<Rightarrow> 'b SQLiteCache \<Rightarrow> (int \<times> string \<times> 'v) list \<Rightarrow> 'b SQLiteCache" where
  "SQLiteCache_inserts dumps enable_cache self calls =
     foldl (\<lambda>s c. snd (SQLiteCache_insert dumps enable_cache (fst c) s (snd c))) self calls"

text \<open>The row that the insert of a call \<open>(now, key, value)\<close> writes.\<close>

definition call_row :: "('v \<Rightarrow> 'b) \<Rightarrow> int \<times> string \<times> 'v \<Rightarrow> 'b row" where
  "call_row dumps c = \<lparr>key = fst (snd c), val = dumps (snd (snd c)), last_accessed = fst c\<rparr>"

text \<open>One call of a method of the interface, under the setting of the moment.\<close>

datatype 'v call = Get string | Insert string 'v | Reset "int option"

definition InMemoryCache_call ::
  "bool \<Rightarrow> 'v InMemoryCache \<Rightarrow> 'v call \<Rightarrow> 'v option \<times> 'v InMemoryCache" where
  "InMemoryCache_call enable_cache self c =
     (case c of
        Get k \<Rightarrow> InMemoryCache_get enable_cache self k
      | Insert k v \<Rightarrow> (None, snd (InMemoryCache_insert enable_cache self (k, v)))
      | Reset m \<Rightarrow> (None, InMemoryCache_reset self m))"

definition SQLiteCache_call ::
  "('v \<Rightarrow> 'b) \<Rightarrow> ('b \<Rightarrow> 'v) \<Rightarrow> bool \<Rightarrow> int \<Rightarrow> 'b SQLiteCache \<Rightarrow> 'v call
     \<Rightarrow> 'v option \<times> 'b SQLiteCache" where
  "SQLiteCache_call dumps loads enable_cache now self c =
     (case c of
        Get k \<Rightarrow> SQLiteCache_get loads enable_cache now self k
      | Insert k v \<Rightarrow> (None, snd (SQLiteCache_insert dumps enable_cache now self (k, v)))
      | Reset m \<Rightarrow> (None, SQLiteCache_reset self m))"


section \<open>Properties\<close>

subsection \<open>Auxiliary facts\<close>

lemmas cache_defs =
  require_cache_enabled_def
  SQLiteCache_init_def SQLiteCache_get_def SQLiteCache_get_body_def
  SQLiteCache_insert_def SQLiteCache_insert_body_def insert_or_replace_def
  SQLiteCache_enforce_size_limit_def SQLiteCache_reset_def
  InMemoryCache_init_def InMemoryCache_get_def InMemoryCache_get_body_def
  InMemoryCache_insert_def InMemoryCache_insert_body_def InMemoryCache_reset_def
  InMemoryCache_inserts_def SQLiteCache_inserts_def
  InMemoryCache_call_def SQLiteCache_call_def

lemma insort_key_snoc_max:
  "f y \<le> f x \<Longrightarrow> insort_key f y (zs @ [x]) = insort_key f y zs @ [x]"
  by (induction zs) auto

lemma sort_key_snoc_max:
  "\<forall>y\<in>set ys. f y \<le> f x \<Longrightarrow> sort_key f (ys @ [x]) = sort_key f ys @ [x]"
  by (induction ys) (auto simp: insort_key_snoc_max)

lemma length_filter_victims:
  assumes "mset ss = mset xs"
  shows "length (filter (\<lambda>r. f r \<notin> f ` set (take n ss)) xs) + min n (length xs) \<le> length xs"
proof -
  let ?T = "take n ss"
  let ?P = "\<lambda>r. f r \<in> f ` set ?T"
  have len: "length ss = length xs"
    using assms by (metis size_mset)
  have "mset ?T \<subseteq># mset (?T @ drop n ss)"
    by (simp del: append_take_drop_id)
  then have sub: "mset ?T \<subseteq># mset xs"
    using assms by simp
  have "filter_mset ?P (mset ?T) = mset ?T"
    by (simp add: filter_mset_eq_conv)
  then have "mset ?T \<subseteq># filter_mset ?P (mset xs)"
    using multiset_filter_mono [OF sub, of ?P] by simp
  then have "size (mset ?T) \<le> size (filter_mset ?P (mset xs))"
    by (rule size_mset_mono)
  then have "min n (length xs) \<le> length (filter ?P xs)"
    using len by (simp add: min.commute flip: mset_filter)
  moreover have "length (filter ?P xs) + length (filter (\<lambda>r. \<not> ?P r) xs) = length xs"
    by (rule sum_length_filter_compl)
  ultimately show ?thesis by simp
qed

lemma enforce_max_size [simp]:
  "max_size (SQLiteCache_enforce_size_limit s) = max_size s"
  by (simp add: SQLiteCache_enforce_size_limit_def Let_def)

lemma enforce_length_le:
  assumes "0 \<le> max_size s"
  shows "int (length (rows (SQLiteCache_enforce_size_limit s))) \<le> max_size s"
proof (cases "int (length (rows s)) > max_size s")
  case False
  then show ?thesis by (simp add: SQLiteCache_enforce_size_limit_def)
next
  case True
  let ?n = "nat (int (length (rows s)) - max_size s)"
  have n: "?n \<le> length (rows s)" using assms by simp
  have "length (filter (\<lambda>r. key r \<notin> key ` set (take ?n (sort_key last_accessed (rows s)))) (rows s))
          + min ?n (length (rows s)) \<le> length (rows s)"
    by (rule length_filter_victims) simp
  with n True show ?thesis
    by (simp add: SQLiteCache_enforce_size_limit_def Let_def min_absorb1)
qed

lemma length_update:
  "length (AList.update k v al) = (if k \<in> fst ` set al then length al else Suc (length al))"
  by (induction al) auto


lemma InMemoryCache_insert_max_size [simp]:
  "max_size (snd (InMemoryCache_insert en m kv)) = max_size m"
  by (simp add: InMemoryCache_insert_def InMemoryCache_insert_body_def
      require_cache_enabled_def Let_def)

lemma SQLiteCache_insert_max_size [simp]:
  "max_size (snd (SQLiteCache_insert dumps en now d kv)) = max_size d"
  by (simp add: SQLiteCache_insert_def SQLiteCache_insert_body_def
      require_cache_enabled_def Let_def)

lemma InMemoryCache_insert_length_le:
  assumes "int (length (cache m)) \<le> max_size m"
  shows "int (length (cache (snd (InMemoryCache_insert en m kv)))) \<le> max_size m"
  using assms
  by (simp add: InMemoryCache_insert_def InMemoryCache_insert_body_def
      require_cache_enabled_def Let_def length_update)

lemma SQLiteCache_insert_length_le:
  assumes "0 \<le> max_size d" and "int (length (rows d)) \<le> max_size d"
  shows "int (length (rows (snd (SQLiteCache_insert dumps en now d kv)))) \<le> max_size d"
proof (cases en)
  case False
  with assms show ?thesis
    by (simp add: SQLiteCache_insert_def require_cache_enabled_def)
next
  case True
  let ?s = "d\<lparr>rows := insert_or_replace
      \<lparr>key = fst kv, val = dumps (snd kv), last_accessed = now\<rparr> (rows d)\<rparr>"
  have "int (length (rows (SQLiteCache_enforce_size_limit ?s))) \<le> max_size ?s"
    by (rule enforce_length_le) (simp add: assms)
  with True show ?thesis
    by (simp add: SQLiteCache_insert_def SQLiteCache_insert_body_def
        require_cache_enabled_def Let_def)
qed

lemma InMemoryCache_inserts_length_le:
  "int (length (cache m)) \<le> max_size m \<Longrightarrow>
   max_size (InMemoryCache_inserts en m kvs) = max_size m \<and>
   int (length (cache (InMemoryCache_inserts en m kvs))) \<le> max_size m"
proof (induction kvs arbitrary: m)
  case Nil
  then show ?case by (simp add: InMemoryCache_inserts_def)
next
  case (Cons kv kvs)
  have "int (length (cache (snd (InMemoryCache_insert en m kv))))
          \<le> max_size (snd (InMemoryCache_insert en m kv))"
    using Cons.prems by (simp add: InMemoryCache_insert_length_le)
  from Cons.IH [OF this] show ?case
    by (simp add: InMemoryCache_inserts_def)
qed

lemma SQLiteCache_inserts_length_le:
  "0 \<le> max_size d \<Longrightarrow> int (length (rows d)) \<le> max_size d \<Longrightarrow>
   max_size (SQLiteCache_inserts dumps en d calls) = max_size d \<and>
   int (length (rows (SQLiteCache_inserts dumps en d calls))) \<le> max_size d"
proof (induction calls arbitrary: d)
  case Nil
  then show ?case by (simp add: SQLiteCache_inserts_def)
next
  case (Cons c calls)
  let ?d = "snd (SQLiteCache_insert dumps en (fst c) d (snd c))"
  have "0 \<le> max_size ?d" and "int (length (rows ?d)) \<le> max_size ?d"
    using Cons.prems by (simp_all add: SQLiteCache_insert_length_le)
  from Cons.IH [OF this] show ?case
    by (simp add: SQLiteCache_inserts_def)
qed

subsection \<open>Capacity\<close>

text \<open>
  C1. For either backend with positive capacity \<open>N\<close> and at most \<open>N\<close> entries before the
  call, the cache holds at most \<open>N\<close> entries after \<open>insert\<close> returns with caching
  enabled; hence, starting from an empty cache, the count is at most \<open>N\<close> after each
  insert of any sequence of inserts (after the first \<open>i\<close> calls, for every \<open>i\<close>).
\<close>

theorem C1_capacity_invariant:
  assumes "0 < N"
  shows "(max_size m = N \<and> int (length (cache m)) \<le> N \<longrightarrow>
            int (length (cache (snd (InMemoryCache_insert True m (k, v))))) \<le> N)
       \<and> (max_size d = N \<and> int (length (rows d)) \<le> N \<longrightarrow>
            int (length (rows (snd (SQLiteCache_insert dumps True now d (k, v))))) \<le> N)
       \<and> int (length (cache (InMemoryCache_inserts True (InMemoryCache_init N) (take i kvs)))) \<le> N
       \<and> int (length (rows (SQLiteCache_inserts dumps True (SQLiteCache_init N []) (take j calls)))) \<le> N"
proof -
  have a: "max_size m = N \<and> int (length (cache m)) \<le> N \<longrightarrow>
            int (length (cache (snd (InMemoryCache_insert True m (k, v))))) \<le> N"
    using InMemoryCache_insert_length_le [of m True "(k, v)"] by auto
  have b: "max_size d = N \<and> int (length (rows d)) \<le> N \<longrightarrow>
            int (length (rows (snd (SQLiteCache_insert dumps True now d (k, v))))) \<le> N"
    using SQLiteCache_insert_length_le [of d dumps True now "(k, v)"] assms by auto
  have c: "int (length (cache (InMemoryCache_inserts True (InMemoryCache_init N) (take i kvs)))) \<le> N"
    using InMemoryCache_inserts_length_le [of "InMemoryCache_init N" True "take i kvs"] assms
    by (simp add: InMemoryCache_init_def)
  have d: "int (length (rows (SQLiteCache_inserts dumps True (SQLiteCache_init N []) (take j calls)))) \<le> N"
    using SQLiteCache_inserts_length_le [of "SQLiteCache_init N []" dumps True "take j calls"] assms
    by (simp add: SQLiteCache_init_def)
  from a b c d show ?thesis by blast
qed

theorem C1_capacity_invariant_witness:
  "(0::int) < 2
   \<and> int (length (cache (snd (InMemoryCache_insert True
        \<lparr>max_size = 2, cache = [(''a'', 1::int), (''b'', 2)]\<rparr> (''c'', 3))))) \<le> 2
   \<and> int (length (rows (snd (SQLiteCache_insert id True 7
        \<lparr>max_size = 2, rows = [\<lparr>key = ''a'', val = 1::int, last_accessed = 5\<rparr>,
                                \<lparr>key = ''b'', val = 2, last_accessed = 6\<rparr>]\<rparr> (''c'', 3))))) \<le> 2
   \<and> int (length (cache (InMemoryCache_inserts True (InMemoryCache_init 2)
        (take 3 [(''a'', 1::int), (''b'', 2), (''c'', 3)])))) \<le> 2
   \<and> int (length (rows (SQLiteCache_inserts id True (SQLiteCache_init 2 [])
        (take 3 [(5, ''a'', 1::int), (6, ''b'', 2), (7, ''c'', 3)])))) \<le> 2"
  using C1_capacity_invariant [where N = 2
      and m = "\<lparr>max_size = 2, cache = [(''a'', 1::int), (''b'', 2)]\<rparr>"
      and k = "''c''" and v = 3
      and d = "\<lparr>max_size = 2, rows = [\<lparr>key = ''a'', val = 1::int, last_accessed = 5\<rparr>,
                                \<lparr>key = ''b'', val = 2, last_accessed = 6\<rparr>]\<rparr>"
      and dumps = id and now = 7
      and i = 3 and kvs = "[(''a'', 1::int), (''b'', 2), (''c'', 3)]"
      and j = 3 and calls = "[(5, ''a'', 1::int), (6, ''b'', 2), (7, ''c'', 3)]"]
  by simp

subsection \<open>Recency in the in-memory cache\<close>

text \<open>
  C2. The claim: in the in-memory cache \<open>get\<close> on a present key records the key as
  most recently used, so that with capacity 2, after \<open>insert(a,1)\<close>, \<open>insert(b,2)\<close>,
  \<open>get(a)\<close>, \<open>insert(c,3)\<close>, the key \<open>b\<close> is absent and \<open>a\<close> and \<open>c\<close> hit.
  The code: \<open>get\<close> returns the object as it was, for every key; on the trace of the
  claim the entry evicted is \<open>a\<close>, the oldest insertion, and \<open>b\<close> still hits.
\<close>

theorem C2_get_does_not_refresh:
  "snd (InMemoryCache_get enable_cache m k) = m
   \<and> (let c0 = InMemoryCache_init 2 :: int InMemoryCache;
           c1 = snd (InMemoryCache_insert True c0 (''a'', 1));
           c2 = snd (InMemoryCache_insert True c1 (''b'', 2));
           c3 = snd (InMemoryCache_get True c2 ''a'');
           c4 = snd (InMemoryCache_insert True c3 (''c'', 3))
       in fst (InMemoryCache_get True c2 ''a'') = Some 1
          \<and> cache c4 = [(''b'', 2), (''c'', 3)]
          \<and> fst (InMemoryCache_get True c4 ''a'') = None
          \<and> fst (InMemoryCache_get True c4 ''b'') = Some 2
          \<and> fst (InMemoryCache_get True c4 ''c'') = Some 3)"
  by (simp add: cache_defs Let_def)

subsection \<open>The gate\<close>

text \<open>
  C4. With the setting off, for either backend, \<open>insert(k, v)\<close> returns the object as it
  was and \<open>get\<close> returns \<open>None\<close> for every key, whatever the backend stores; so does
  \<open>get(k)\<close> after \<open>insert(k, v)\<close>.
\<close>

theorem C4_disabled_gate:
  "InMemoryCache_insert False m (k, v) = (None, m)
   \<and> InMemoryCache_get False m k' = (None, m)
   \<and> fst (InMemoryCache_get False (snd (InMemoryCache_insert False m (k, v))) k) = None
   \<and> SQLiteCache_insert dumps False now d (k, v) = (None, d)
   \<and> SQLiteCache_get loads False now' d k' = (None, d)
   \<and> fst (SQLiteCache_get loads False now' (snd (SQLiteCache_insert dumps False now d (k, v))) k)
       = None"
  by (simp add: cache_defs)

subsection \<open>\<open>reset\<close>\<close>

text \<open>
  C8. For either backend \<open>reset\<close> removes every entry, so that every key is absent
  afterwards; with a new capacity \<open>n\<close> the object is the one the constructor builds for
  \<open>n\<close> (on an empty table, for the durable backend), and without one it is the one the
  constructor builds for the old capacity.
\<close>

theorem C8_reset:
  "cache (InMemoryCache_reset m new) = []
   \<and> fst (InMemoryCache_get enable_cache (InMemoryCache_reset m new) k) = None
   \<and> InMemoryCache_reset m (Some n) = InMemoryCache_init n
   \<and> InMemoryCache_reset m None = InMemoryCache_init (max_size m)
   \<and> rows (SQLiteCache_reset d new) = []
   \<and> fst (SQLiteCache_get loads enable_cache now (SQLiteCache_reset d new) k) = None
   \<and> SQLiteCache_reset d (Some n) = SQLiteCache_init n []
   \<and> SQLiteCache_reset d None = SQLiteCache_init (max_size d) []"
  by (cases new) (simp_all add: cache_defs Let_def)

subsection \<open>Capacities that are not positive\<close>

text \<open>
  C9. The claim: a capacity that is not positive is rejected by the constructor and by
  \<open>reset\<close>. The code stores it: capacity 0 and negative capacities become \<open>max_size\<close>.
\<close>

theorem C9_counterexample:
  "max_size (InMemoryCache_init 0 :: int InMemoryCache) = 0
   \<and> max_size (SQLiteCache_init (- 1) [] :: int SQLiteCache) = - 1
   \<and> max_size (InMemoryCache_reset (InMemoryCache_init 2 :: int InMemoryCache) (Some 0)) = 0
   \<and> max_size (SQLiteCache_reset (SQLiteCache_init 2 [] :: int SQLiteCache) (Some (- 5))) = - 5"
  by (simp add: cache_defs Let_def)

text \<open>
  C9, as the code has it: the constructor of either backend and \<open>reset\<close> with a new
  capacity accept every integer and make it the capacity of the object.
\<close>

theorem C9_capacity_not_validated:
  "max_size (InMemoryCache_init n) = n
   \<and> max_size (SQLiteCache_init n db) = n
   \<and> max_size (InMemoryCache_reset m (Some n)) = n
   \<and> max_size (SQLiteCache_reset d (Some n)) = n"
  by (simp add: cache_defs Let_def)

text \<open>
  C10. The setting does not guard \<open>reset\<close>: with the setting off, for either backend, a
  call of \<open>reset\<close> is \<open>reset\<close> itself, it removes every entry and installs the new
  capacity it is given, while \<open>get\<close> and \<open>insert\<close> leave the object as it was.
\<close>

theorem C10_reset_not_gated:
  "InMemoryCache_call False m (Reset new) = (None, InMemoryCache_reset m new)
   \<and> cache (snd (InMemoryCache_call False m (Reset new))) = []
   \<and> max_size (snd (InMemoryCache_call False m (Reset (Some n)))) = n
   \<and> InMemoryCache_call False m (Get k) = (None, m)
   \<and> InMemoryCache_call False m (Insert k v) = (None, m)
   \<and> SQLiteCache_call dumps loads False now d (Reset new) = (None, SQLiteCache_reset d new)
   \<and> rows (snd (SQLiteCache_call dumps loads False now d (Reset new))) = []
   \<and> max_size (snd (SQLiteCache_call dumps loads False now d (Reset (Some n)))) = n
   \<and> SQLiteCache_call dumps loads False now d (Get k) = (None, d)
   \<and> SQLiteCache_call dumps loads False now d (Insert k v) = (None, d)"
  by (cases new) (simp_all add: cache_defs Let_def)

subsection \<open>Auxiliary facts: the in-memory cache after an insert\<close>



subsection \<open>Auxiliary facts: the newest row of the durable cache\<close>


lemma enforce_keeps_newest:
  assumes "0 < max_size s" and "rows s = ys @ [x]"
    and "\<forall>y\<in>set ys. last_accessed y \<le> last_accessed x"
    and "\<forall>y\<in>set ys. key y \<noteq> key x"
  shows "\<exists>zs. rows (SQLiteCache_enforce_size_limit s) = zs @ [x]
           \<and> set zs \<subseteq> set ys"
proof (cases "int (length (rows s)) > max_size s")
  case False
  with assms(2) show ?thesis
    by (auto simp: SQLiteCache_enforce_size_limit_def)
next
  case True
  let ?n = "nat (int (length (rows s)) - max_size s)"
  let ?T = "take ?n (sort_key last_accessed (rows s))"
  have n: "?n \<le> length ys" using assms(1,2) by simp
  have "sort_key last_accessed (rows s) = sort_key last_accessed ys @ [x]"
    using assms(2,3) by (simp add: sort_key_snoc_max)
  with n have T: "?T = take ?n (sort_key last_accessed ys)" by simp
  have "set ?T \<subseteq> set ys"
    unfolding T using set_take_subset [of ?n "sort_key last_accessed ys"] by simp
  with assms(4) have "key x \<notin> key ` set ?T" by auto
  then have "filter (\<lambda>r. key r \<notin> key ` set ?T) (rows s)
               = filter (\<lambda>r. key r \<notin> key ` set ?T) ys @ [x]"
    using assms(2) by simp
  with True show ?thesis
    by (auto simp: SQLiteCache_enforce_size_limit_def Let_def)
qed

lemma SQLiteCache_insert_newest:
  assumes "0 < max_size d" and "\<forall>r\<in>set (rows d). last_accessed r \<le> now"
  shows "\<exists>zs. rows (snd (SQLiteCache_insert dumps True now d (k, v)))
                = zs @ [\<lparr>key = k, val = dumps v, last_accessed = now\<rparr>]
           \<and> set zs \<subseteq> {r \<in> set (rows d). key r \<noteq> k}"
proof -
  let ?new = "\<lparr>key = k, val = dumps v, last_accessed = now\<rparr>"
  let ?ys = "filter (\<lambda>r. key r \<noteq> k) (rows d)"
  let ?s = "d\<lparr>rows := insert_or_replace ?new (rows d)\<rparr>"
  have "\<exists>zs. rows (SQLiteCache_enforce_size_limit ?s) = zs @ [?new] \<and> set zs \<subseteq> set ?ys"
    by (rule enforce_keeps_newest) (use assms in \<open>auto simp: insert_or_replace_def\<close>)
  then show ?thesis
    by (auto simp: SQLiteCache_insert_def SQLiteCache_insert_body_def
        require_cache_enabled_def Let_def)
qed



subsection \<open>The states that the methods reach\<close>


lemma enforce_rows_subset:
  "set (rows (SQLiteCache_enforce_size_limit s)) \<subseteq> set (rows s)"
  by (simp add: SQLiteCache_enforce_size_limit_def Let_def)

lemma SQLiteCache_call_clock:
  assumes "\<forall>r\<in>set (rows s). last_accessed r \<le> now"
  shows "\<forall>r\<in>set (rows (snd (SQLiteCache_call dumps loads en now s c))). last_accessed r \<le> now"
proof (cases c)
  case (Get k)
  with assms show ?thesis
    by (auto simp: SQLiteCache_call_def SQLiteCache_get_def SQLiteCache_get_body_def
        require_cache_enabled_def split: option.splits)
next
  case (Insert k v)
  let ?s = "s\<lparr>rows := insert_or_replace
      \<lparr>key = k, val = dumps v, last_accessed = now\<rparr> (rows s)\<rparr>"
  have "\<forall>r\<in>set (rows ?s). last_accessed r \<le> now"
    using assms by (auto simp: insert_or_replace_def)
  then have "\<forall>r\<in>set (rows (SQLiteCache_enforce_size_limit ?s)). last_accessed r \<le> now"
    using enforce_rows_subset [of ?s] by blast
  with Insert assms show ?thesis
    by (cases en) (simp_all add: SQLiteCache_call_def SQLiteCache_insert_def
        SQLiteCache_insert_body_def require_cache_enabled_def Let_def)
next
  case (Reset m)
  then show ?thesis
    by (cases m) (simp_all add: SQLiteCache_call_def SQLiteCache_reset_def Let_def)
qed



subsection \<open>Round trip\<close>




subsection \<open>Overwriting a key\<close>






subsection \<open>Eviction in the durable cache\<close>

lemma enforce_victims:
  assumes dist: "distinct (map key (rows s))"
  shows "rows (SQLiteCache_enforce_size_limit s) =
     (if int (length (rows s)) > max_size s
      then filter (\<lambda>r. r \<notin> set (take (nat (int (length (rows s)) - max_size s))
                                      (sort_key last_accessed (rows s)))) (rows s)
      else rows s)"
proof (cases "int (length (rows s)) > max_size s")
  case False
  then show ?thesis by (simp add: SQLiteCache_enforce_size_limit_def)
next
  case True
  let ?T = "take (nat (int (length (rows s)) - max_size s)) (sort_key last_accessed (rows s))"
  have sub: "set ?T \<subseteq> set (rows s)"
    using set_take_subset [of _ "sort_key last_accessed (rows s)"] by simp
  have inj: "inj_on key (set (rows s))"
    using dist by (simp add: distinct_map)
  have "filter (\<lambda>r. key r \<notin> key ` set ?T) (rows s) = filter (\<lambda>r. r \<notin> set ?T) (rows s)"
  proof (rule filter_cong [OF refl])
    fix r assume "r \<in> set (rows s)"
    then show "(key r \<notin> key ` set ?T) = (r \<notin> set ?T)"
      using inj sub by (auto dest: inj_onD)
  qed
  with True show ?thesis
    by (simp add: SQLiteCache_enforce_size_limit_def Let_def)
qed

lemma enforce_exact:
  assumes dist: "distinct (map key (rows s))" and "0 \<le> max_size s"
    and over: "int (length (rows s)) > max_size s"
  shows "int (length (rows (SQLiteCache_enforce_size_limit s))) = max_size s"
    and "\<forall>x\<in>set (rows s) - set (rows (SQLiteCache_enforce_size_limit s)).
           \<forall>y\<in>set (rows (SQLiteCache_enforce_size_limit s)).
              last_accessed x \<le> last_accessed y"
proof -
  let ?n = "nat (int (length (rows s)) - max_size s)"
  let ?S = "sort_key last_accessed (rows s)"
  let ?T = "take ?n ?S"
  let ?D = "drop ?n ?S"
  have out: "rows (SQLiteCache_enforce_size_limit s) = filter (\<lambda>r. r \<notin> set ?T) (rows s)"
    using enforce_victims [OF dist] over by simp
  have n: "?n \<le> length (rows s)" using assms(2) by simp
  have drows: "distinct (rows s)"
    using dist by (simp add: distinct_map)
  then have dT: "distinct ?T" by simp
  have sub: "set ?T \<subseteq> set (rows s)"
    using set_take_subset [of ?n ?S] by simp
  have "length (filter (\<lambda>r. r \<notin> set ?T) (rows s)) = card (set (rows s) - set ?T)"
    using drows by (simp add: distinct_length_filter Diff_eq Int_commute Collect_neg_eq)
  also have "\<dots> = card (set (rows s)) - card (set ?T)"
    using sub by (simp add: card_Diff_subset)
  also have "\<dots> = length (rows s) - ?n"
    using drows dT n by (simp add: distinct_card)
  finally have "length (rows (SQLiteCache_enforce_size_limit s)) = length (rows s) - ?n"
    using out by simp
  then show "int (length (rows (SQLiteCache_enforce_size_limit s))) = max_size s"
    using assms(2) over by simp
  have sorted: "sorted (map last_accessed ?T @ map last_accessed ?D)"
    by (simp flip: map_append)
  have split: "set (rows s) = set ?T \<union> set ?D"
    using set_append [of ?T ?D] by simp
  show "\<forall>x\<in>set (rows s) - set (rows (SQLiteCache_enforce_size_limit s)).
           \<forall>y\<in>set (rows (SQLiteCache_enforce_size_limit s)).
              last_accessed x \<le> last_accessed y"
  proof (intro ballI)
    fix x y
    assume "x \<in> set (rows s) - set (rows (SQLiteCache_enforce_size_limit s))"
      and "y \<in> set (rows (SQLiteCache_enforce_size_limit s))"
    then have "x \<in> set ?T" and "y \<in> set ?D"
      using out split by auto
    with sorted show "last_accessed x \<le> last_accessed y"
      by (auto simp: sorted_append)
  qed
qed

lemma insert_or_replace_distinct:
  assumes "distinct (map key table)"
  shows "distinct (map key (insert_or_replace new table))"
  using assms by (auto simp: insert_or_replace_def distinct_map_filter)

lemma SQLiteCache_insert_rows:
  "rows (snd (SQLiteCache_insert dumps True now d (k, v))) =
     rows (SQLiteCache_enforce_size_limit
       (d\<lparr>rows := insert_or_replace \<lparr>key = k, val = dumps v, last_accessed = now\<rparr> (rows d)\<rparr>))"
  by (simp add: SQLiteCache_insert_def SQLiteCache_insert_body_def
      require_cache_enabled_def Let_def)

text \<open>
  C5. With the setting on, an insert into the durable cache first upserts the row: the
  table \<open>up\<close> then holds the new row as its only row for the key, and the rows of the
  other keys as they were. The table \<open>out\<close> that the insert leaves consists of rows of
  \<open>up\<close>, in their order. If \<open>up\<close> has at most \<open>max_size\<close> rows, nothing is deleted. If it
  has more, exactly (count minus \<open>max_size\<close>) rows are deleted, and every deleted row has
  a \<open>last_accessed\<close> no later than that of every row kept. The keys of the table are
  unique (\<open>PRIMARY KEY\<close>) and the capacity is not negative.
\<close>

theorem C5_durable_insert_evicts_oldest:
  assumes "distinct (map key (rows d))" and "0 \<le> max_size d"
  shows "let new = \<lparr>key = k, val = dumps v, last_accessed = now\<rparr>;
             up = insert_or_replace new (rows d);
             out = rows (snd (SQLiteCache_insert dumps True now d (k, v)))
         in filter (\<lambda>r. key r = k) up = [new]
            \<and> filter (\<lambda>r. key r \<noteq> k) up = filter (\<lambda>r. key r \<noteq> k) (rows d)
            \<and> subseq out up
            \<and> (int (length up) \<le> max_size d \<longrightarrow> out = up)
            \<and> (int (length up) > max_size d \<longrightarrow>
                 int (length up) - int (length out) = int (length up) - max_size d
                 \<and> (\<forall>x\<in>set up - set out. \<forall>y\<in>set out.
                       last_accessed x \<le> last_accessed y))"
proof -
  let ?new = "\<lparr>key = k, val = dumps v, last_accessed = now\<rparr>"
  let ?up = "insert_or_replace ?new (rows d)"
  let ?s = "d\<lparr>rows := ?up\<rparr>"
  let ?out = "rows (snd (SQLiteCache_insert dumps True now d (k, v)))"
  have out: "?out = rows (SQLiteCache_enforce_size_limit ?s)"
    by (rule SQLiteCache_insert_rows)
  have dist: "distinct (map key (rows ?s))"
    using insert_or_replace_distinct [OF assms(1)] by simp
  have cap: "0 \<le> max_size ?s" using assms(2) by simp
  have a: "filter (\<lambda>r. key r = k) ?up = [?new]"
    by (simp add: insert_or_replace_def)
  have b: "filter (\<lambda>r. key r \<noteq> k) ?up = filter (\<lambda>r. key r \<noteq> k) (rows d)"
    by (simp add: insert_or_replace_def)
  have c: "subseq ?out ?up"
    unfolding out using enforce_victims [OF dist] by simp
  have e: "int (length ?up) \<le> max_size d \<longrightarrow> ?out = ?up"
    unfolding out by (simp add: SQLiteCache_enforce_size_limit_def)
  have f: "int (length ?up) > max_size d \<longrightarrow>
             int (length ?up) - int (length ?out) = int (length ?up) - max_size d
             \<and> (\<forall>x\<in>set ?up - set ?out. \<forall>y\<in>set ?out. last_accessed x \<le> last_accessed y)"
  proof
    assume "int (length ?up) > max_size d"
    then have over: "int (length (rows ?s)) > max_size ?s" by simp
    have "int (length (rows (SQLiteCache_enforce_size_limit ?s))) = max_size ?s"
      by (rule enforce_exact(1) [OF dist cap over])
    moreover have "\<forall>x\<in>set (rows ?s) - set (rows (SQLiteCache_enforce_size_limit ?s)).
           \<forall>y\<in>set (rows (SQLiteCache_enforce_size_limit ?s)).
              last_accessed x \<le> last_accessed y"
      by (rule enforce_exact(2) [OF dist cap over])
    ultimately show "int (length ?up) - int (length ?out) = int (length ?up) - max_size d
             \<and> (\<forall>x\<in>set ?up - set ?out. \<forall>y\<in>set ?out. last_accessed x \<le> last_accessed y)"
      unfolding out by simp
  qed
  from a b c e f show ?thesis
    unfolding Let_def by (intro conjI)
qed

theorem C5_durable_insert_evicts_oldest_witness:
  "rows (snd (SQLiteCache_insert id True 9
      \<lparr>max_size = 2, rows = [\<lparr>key = ''a'', val = 1::int, last_accessed = 7\<rparr>,
                              \<lparr>key = ''b'', val = 2, last_accessed = 5\<rparr>,
                              \<lparr>key = ''c'', val = 3, last_accessed = 8\<rparr>]\<rparr>
      (''d'', 4)))
    = [\<lparr>key = ''c'', val = 3, last_accessed = 8\<rparr>, \<lparr>key = ''d'', val = 4, last_accessed = 9\<rparr>]
   \<and> int (length (insert_or_replace \<lparr>key = ''d'', val = 4::int, last_accessed = 9\<rparr>
        [\<lparr>key = ''a'', val = 1::int, last_accessed = 7\<rparr>,
         \<lparr>key = ''b'', val = 2, last_accessed = 5\<rparr>,
         \<lparr>key = ''c'', val = 3, last_accessed = 8\<rparr>])) = 4
   \<and> subseq
        (rows (snd (SQLiteCache_insert id True 9
          \<lparr>max_size = 2, rows = [\<lparr>key = ''a'', val = 1::int, last_accessed = 7\<rparr>,
                                  \<lparr>key = ''b'', val = 2, last_accessed = 5\<rparr>,
                                  \<lparr>key = ''c'', val = 3, last_accessed = 8\<rparr>]\<rparr>
          (''d'', 4))))
        (insert_or_replace \<lparr>key = ''d'', val = 4::int, last_accessed = 9\<rparr>
          [\<lparr>key = ''a'', val = 1::int, last_accessed = 7\<rparr>,
           \<lparr>key = ''b'', val = 2, last_accessed = 5\<rparr>,
           \<lparr>key = ''c'', val = 3, last_accessed = 8\<rparr>])"
  using C5_durable_insert_evicts_oldest [where d =
      "\<lparr>max_size = 2, rows = [\<lparr>key = ''a'', val = 1::int, last_accessed = 7\<rparr>,
                              \<lparr>key = ''b'', val = 2, last_accessed = 5\<rparr>,
                              \<lparr>key = ''c'', val = 3, last_accessed = 8\<rparr>]\<rparr>"
      and dumps = id and now = 9 and k = "''d''" and v = 4]
  by (simp add: cache_defs Let_def)

subsection \<open>Sequences of inserts into the durable cache\<close>

lemma filter_hd_key:
  assumes "distinct (map key (R @ [x]))" and "R \<noteq> []"
  shows "filter (\<lambda>r. key r \<noteq> key (hd R)) (R @ [x]) = tl R @ [x]"
proof (cases R)
  case Nil
  with assms(2) show ?thesis by simp
next
  case (Cons a R')
  with assms(1) have "key a \<notin> set (map key (R' @ [x]))" by simp
  then have "\<forall>r\<in>set (R' @ [x]). key r \<noteq> key a"
    by (metis image_eqI set_map)
  then have "filter (\<lambda>r. key r \<noteq> key a) (R' @ [x]) = R' @ [x]"
    by (simp only: filter_True)
  with Cons show ?thesis by simp
qed

lemma enforce_rows_over:
  "int (length (rows s)) > max_size s \<Longrightarrow>
   rows (SQLiteCache_enforce_size_limit s) =
     filter (\<lambda>r. key r \<notin> set (map key
        (take (nat (int (length (rows s)) - max_size s)) (sort_key last_accessed (rows s)))))
       (rows s)"
  by (simp add: SQLiteCache_enforce_size_limit_def Let_def)

lemma enforce_only_rows:
  "SQLiteCache_enforce_size_limit s = s\<lparr>rows := rows (SQLiteCache_enforce_size_limit s)\<rparr>"
  by (simp add: SQLiteCache_enforce_size_limit_def Let_def)

lemma SQLiteCache_insert_fresh_newest:
  assumes cap: "0 < N"
    and sorted: "sorted (map last_accessed R)"
    and dist: "distinct (map key R)"
    and le: "\<forall>r\<in>set R. last_accessed r \<le> now"
    and fresh: "k \<notin> key ` set R"
    and len: "int (length R) \<le> N"
  shows "snd (SQLiteCache_insert dumps True now (SQLiteCache_init N R) (k, v))
         = SQLiteCache_init N
             ((if int (length R) < N then R else tl R)
              @ [\<lparr>key = k, val = dumps v, last_accessed = now\<rparr>])"
proof -
  let ?new = "\<lparr>key = k, val = dumps v, last_accessed = now\<rparr>"
  from fresh have "filter (\<lambda>r. key r \<noteq> k) R = R"
    by (auto simp: filter_id_conv)
  then have up: "insert_or_replace ?new R = R @ [?new]"
    by (simp add: insert_or_replace_def)
  have ins: "snd (SQLiteCache_insert dumps True now (SQLiteCache_init N R) (k, v))
      = SQLiteCache_enforce_size_limit (SQLiteCache_init N (R @ [?new]))"
    using up
    by (simp add: SQLiteCache_insert_def SQLiteCache_insert_body_def
        require_cache_enabled_def Let_def SQLiteCache_init_def)
  show ?thesis
  proof (cases "int (length R) < N")
    case True
    then show ?thesis
      unfolding ins by (simp add: SQLiteCache_enforce_size_limit_def SQLiteCache_init_def)
  next
    case False
    with len have full: "int (length R) = N" by simp
    with cap have ne: "R \<noteq> []" by auto
    have "sorted (map last_accessed (R @ [?new]))"
      using sorted le by (simp add: sorted_append)
    then have srt: "sort_key last_accessed (R @ [?new]) = R @ [?new]"
      by (rule sort_key_id_if_sorted)
    have tk: "take (Suc 0) (R @ [?new]) = [hd R]"
      using ne by (cases R) simp_all
    have "distinct (map key (R @ [?new]))"
      using dist fresh by simp
    then have flt: "filter (\<lambda>r. key r \<noteq> key (hd R)) (R @ [?new]) = tl R @ [?new]"
      using ne by (rule filter_hd_key)
    let ?s = "SQLiteCache_init N (R @ [?new])"
    have rs: "rows ?s = R @ [?new]" and ms: "max_size ?s = N"
      by (simp_all add: SQLiteCache_init_def)
    have over: "int (length (rows ?s)) > max_size ?s"
      using full by (simp add: SQLiteCache_init_def)
    have n1: "nat (int (length (R @ [?new])) - N) = Suc 0"
      using full by simp
    have "map key (take (Suc 0) (sort_key last_accessed (R @ [?new]))) = map key [hd R]"
      by (simp only: srt tk)
    then have vic: "map key (take (Suc 0) (sort_key last_accessed (R @ [?new]))) = [key (hd R)]"
      by simp
    have "rows (SQLiteCache_enforce_size_limit ?s) =
        filter (\<lambda>r. key r \<notin> set (map key
          (take (nat (int (length (rows ?s)) - max_size ?s))
             (sort_key last_accessed (rows ?s))))) (rows ?s)"
      by (rule enforce_rows_over [OF over])
    also have "\<dots> = filter (\<lambda>r. key r \<notin> set [key (hd R)]) (R @ [?new])"
      by (simp only: rs ms n1 vic)
    also have "\<dots> = filter (\<lambda>r. key r \<noteq> key (hd R)) (R @ [?new])"
      by simp
    also have "\<dots> = tl R @ [?new]"
      by (rule flt)
    finally have out: "rows (SQLiteCache_enforce_size_limit ?s) = tl R @ [?new]" .
    have "SQLiteCache_enforce_size_limit ?s = ?s\<lparr>rows := tl R @ [?new]\<rparr>"
      using enforce_only_rows [of ?s] out by simp
    then have "SQLiteCache_enforce_size_limit (SQLiteCache_init N (R @ [?new]))
            = SQLiteCache_init N (tl R @ [?new])"
      by (simp add: SQLiteCache_init_def)
    with False show ?thesis unfolding ins by simp
  qed
qed

lemma SQLiteCache_inserts_snoc:
  "SQLiteCache_inserts dumps en s (calls @ [c]) =
     snd (SQLiteCache_insert dumps en (fst c) (SQLiteCache_inserts dumps en s calls) (snd c))"
  by (simp add: SQLiteCache_inserts_def)

lemma SQLiteCache_inserts_keeps_last:
  assumes cap: "0 < N"
  shows "sorted (map fst calls) \<Longrightarrow> distinct (map (\<lambda>c. fst (snd c)) calls) \<Longrightarrow>
         SQLiteCache_inserts dumps True (SQLiteCache_init N []) calls
         = SQLiteCache_init N (map (call_row dumps) (drop (length calls - nat N) calls))"
proof (induction calls rule: rev_induct)
  case Nil
  show ?case by (simp add: SQLiteCache_inserts_def)
next
  case (snoc c xs)
  let ?m = "length xs - nat N"
  let ?R = "map (call_row dumps) (drop ?m xs)"
  have la: "map last_accessed (map (call_row dumps) ys) = map fst ys" for ys
    by (simp add: call_row_def comp_def)
  have ky: "map key (map (call_row dumps) ys) = map (\<lambda>c. fst (snd c)) ys" for ys
    by (simp add: call_row_def comp_def)
  from snoc.prems have sx: "sorted (map fst xs)" and lex: "\<forall>t\<in>set (map fst xs). t \<le> fst c"
    and dx: "distinct (map (\<lambda>c. fst (snd c)) xs)"
    and fx: "fst (snd c) \<notin> set (map (\<lambda>c. fst (snd c)) xs)"
    by (simp_all add: sorted_append)
  have IH: "SQLiteCache_inserts dumps True (SQLiteCache_init N []) xs = SQLiteCache_init N ?R"
    by (rule snoc.IH [OF sx dx])
  have p1: "sorted (map last_accessed ?R)"
    unfolding la using sx sorted_wrt_drop [of "(\<le>)" "map fst xs" ?m] by (simp add: drop_map)
  have p2: "distinct (map key ?R)"
    unfolding ky using dx distinct_drop [of "map (\<lambda>c. fst (snd c)) xs" ?m] by (simp add: drop_map)
  have p3: "\<forall>r\<in>set ?R. last_accessed r \<le> fst c"
  proof
    fix r assume "r \<in> set ?R"
    then obtain y where y: "y \<in> set (drop ?m xs)" and r: "r = call_row dumps y" by auto
    from y have "y \<in> set xs" by (rule in_set_dropD)
    with lex have "fst y \<le> fst c" by simp
    with r show "last_accessed r \<le> fst c" by (simp add: call_row_def)
  qed
  have p4: "fst (snd c) \<notin> key ` set ?R"
  proof
    assume "fst (snd c) \<in> key ` set ?R"
    then obtain y where y: "y \<in> set (drop ?m xs)" and k: "fst (snd c) = key (call_row dumps y)"
      by auto
    from y have "y \<in> set xs" by (rule in_set_dropD)
    then have "fst (snd y) \<in> set (map (\<lambda>c. fst (snd c)) xs)" by simp
    with k fx show False by (simp add: call_row_def)
  qed
  have p5: "int (length ?R) \<le> N" using cap by simp
  have "SQLiteCache_inserts dumps True (SQLiteCache_init N []) (xs @ [c])
      = snd (SQLiteCache_insert dumps True (fst c) (SQLiteCache_init N ?R)
               (fst (snd c), snd (snd c)))"
    by (simp add: SQLiteCache_inserts_snoc IH)
  also have "\<dots> = SQLiteCache_init N
      ((if int (length ?R) < N then ?R else tl ?R)
       @ [\<lparr>key = fst (snd c), val = dumps (snd (snd c)), last_accessed = fst c\<rparr>])"
    by (rule SQLiteCache_insert_fresh_newest [OF cap p1 p2 p3 p4 p5])
  also have "(if int (length ?R) < N then ?R else tl ?R)
       @ [\<lparr>key = fst (snd c), val = dumps (snd (snd c)), last_accessed = fst c\<rparr>]
     = map (call_row dumps) (drop (length (xs @ [c]) - nat N) (xs @ [c]))"
  proof (cases "int (length xs) < N")
    case True
    then have "?m = 0" and "length (xs @ [c]) - nat N = 0" by simp_all
    with True show ?thesis by (simp add: call_row_def)
  next
    case False
    with cap have m: "length (xs @ [c]) - nat N = Suc ?m" and le: "Suc ?m \<le> length xs"
      and full: "\<not> int (length ?R) < N"
      by simp_all
    have "tl ?R = map (call_row dumps) (drop (Suc ?m) xs)"
      by (simp add: drop_Suc drop_tl flip: map_tl)
    with m le full show ?thesis by (simp add: call_row_def)
  qed
  finally show ?case .
qed

lemma SQLiteCache_rebuild: "SQLiteCache_init (max_size s) (rows s) = s"
  by (simp add: SQLiteCache_init_def)

lemma SQLiteCache_second_insert:
  assumes cap: "max_size d = 2" and le: "\<forall>r\<in>set (rows d). last_accessed r \<le> t1"
    and t: "t1 \<le> t2" and k: "k1 \<noteq> k2"
  shows "snd (SQLiteCache_insert dumps True t2
              (snd (SQLiteCache_insert dumps True t1 d (k1, v1))) (k2, v2))
         = SQLiteCache_init 2 [\<lparr>key = k1, val = dumps v1, last_accessed = t1\<rparr>,
                               \<lparr>key = k2, val = dumps v2, last_accessed = t2\<rparr>]"
proof -
  let ?d1 = "snd (SQLiteCache_insert dumps True t1 d (k1, v1))"
  let ?new1 = "\<lparr>key = k1, val = dumps v1, last_accessed = t1\<rparr>"
  let ?new2 = "\<lparr>key = k2, val = dumps v2, last_accessed = t2\<rparr>"
  have pos: "0 < max_size d" using cap by simp
  have "\<exists>zs. rows ?d1 = zs @ [?new1] \<and> set zs \<subseteq> {r \<in> set (rows d). key r \<noteq> k1}"
    by (rule SQLiteCache_insert_newest [OF pos le])
  then obtain zs where out: "rows ?d1 = zs @ [?new1]"
    and zs: "set zs \<subseteq> {r \<in> set (rows d). key r \<noteq> k1}"
    by (elim exE conjE)
  have "int (length (rows ?d1)) \<le> 2"
  proof -
    let ?s = "d\<lparr>rows := insert_or_replace ?new1 (rows d)\<rparr>"
    have "int (length (rows (SQLiteCache_enforce_size_limit ?s))) \<le> max_size ?s"
      by (rule enforce_length_le) (use cap in simp)
    then show ?thesis using cap by (simp add: SQLiteCache_insert_rows)
  qed
  with out have len: "length zs \<le> 1" by simp
  have "max_size ?d1 = 2" using cap by simp
  with out have d1: "?d1 = SQLiteCache_init 2 (zs @ [?new1])"
    using SQLiteCache_rebuild [of ?d1] by simp
  show ?thesis
  proof (cases zs)
    case Nil
    have "snd (SQLiteCache_insert dumps True t2 (SQLiteCache_init 2 [?new1]) (k2, v2))
        = SQLiteCache_init 2 ((if int (length [?new1]) < 2 then [?new1] else tl [?new1]) @ [?new2])"
      by (rule SQLiteCache_insert_fresh_newest) (use t k in simp_all)
    with Nil d1 show ?thesis by simp
  next
    case (Cons x zs')
    with len have zs1: "zs = [x]" by simp
    with zs le have x: "key x \<noteq> k1" "last_accessed x \<le> t1" by auto
    show ?thesis
    proof (cases "key x = k2")
      case True
      with k have "snd (SQLiteCache_insert dumps True t2 (SQLiteCache_init 2 [x, ?new1]) (k2, v2))
          = SQLiteCache_init 2 [?new1, ?new2]"
        by (simp add: SQLiteCache_insert_def SQLiteCache_insert_body_def require_cache_enabled_def
            insert_or_replace_def SQLiteCache_enforce_size_limit_def SQLiteCache_init_def Let_def)
      with zs1 d1 show ?thesis by simp
    next
      case False
      have "snd (SQLiteCache_insert dumps True t2 (SQLiteCache_init 2 [x, ?new1]) (k2, v2))
          = SQLiteCache_init 2
              ((if int (length [x, ?new1]) < 2 then [x, ?new1] else tl [x, ?new1]) @ [?new2])"
        by (rule SQLiteCache_insert_fresh_newest) (use t k x False in auto)
      with zs1 d1 show ?thesis by simp
    qed
  qed
qed

lemma SQLiteCache_insert_third:
  assumes "t1 \<le> t2" and "t2 \<le> t3" and "k1 \<noteq> k2" and "k1 \<noteq> k3" and "k2 \<noteq> k3"
  shows "snd (SQLiteCache_insert dumps True t3
            (SQLiteCache_init 2 [\<lparr>key = k1, val = b1, last_accessed = t1\<rparr>,
                                 \<lparr>key = k2, val = b2, last_accessed = t2\<rparr>]) (k3, v3))
         = SQLiteCache_init 2 [\<lparr>key = k2, val = b2, last_accessed = t2\<rparr>,
                               \<lparr>key = k3, val = dumps v3, last_accessed = t3\<rparr>]"
proof -
  let ?R = "[\<lparr>key = k1, val = b1, last_accessed = t1\<rparr>, \<lparr>key = k2, val = b2, last_accessed = t2\<rparr>]"
  have "snd (SQLiteCache_insert dumps True t3 (SQLiteCache_init 2 ?R) (k3, v3))
      = SQLiteCache_init 2 ((if int (length ?R) < 2 then ?R else tl ?R)
          @ [\<lparr>key = k3, val = dumps v3, last_accessed = t3\<rparr>])"
    by (rule SQLiteCache_insert_fresh_newest) (use assms in auto)
  then show ?thesis by simp
qed

text \<open>
  C6. The claim: with capacity 2, five inserts of distinct keys, with no read in
  between, leave exactly the last two keys, for every timing of the inserts. The stamps
  are clock values: when the fifth insert reads 6 after the others read 7, its row is
  the oldest of the table and leaves at once, and the table keeps the third and the
  fourth key.
\<close>

theorem C6_counterexample:
  "(let s = SQLiteCache_inserts id True (SQLiteCache_init 2 [])
             [(7, ''k1'', 1::int), (7, ''k2'', 2), (7, ''k3'', 3), (7, ''k4'', 4), (6, ''k5'', 5)]
    in map key (rows s) = [''k3'', ''k4'']
       \<and> fst (SQLiteCache_get id True 8 s ''k5'') = None
       \<and> fst (SQLiteCache_get id True 8 s ''k3'') = Some 3)"
  by (simp add: cache_defs Let_def)

text \<open>
  C6, as the code has it: with the setting on and capacity 2, five inserts of distinct
  keys, with no read in between, into a durable cache whose rows are stamped no later
  than the first clock value, leave exactly the rows of the last two keys, and \<open>get\<close> on
  each of the first three keys returns \<open>None\<close>, whatever clock values
  \<open>t1 \<le> \<dots> \<le> t5\<close> the five inserts read: they may all be equal (inserts within one
  second), since rows with equal \<open>last_accessed\<close> leave in rowid order. The table may
  hold any rows at the start, also more than two and also rows of the five keys.
\<close>

theorem C6_bulk_eviction:
  assumes "max_size d = 2" and "\<forall>r\<in>set (rows d). last_accessed r \<le> t1"
    and "distinct [k1, k2, k3, k4, k5]" and "sorted [t1, t2, t3, t4, t5]"
  shows "let s = SQLiteCache_inserts dumps True d
                   [(t1, k1, v1), (t2, k2, v2), (t3, k3, v3), (t4, k4, v4), (t5, k5, v5)]
         in map key (rows s) = [k4, k5]
            \<and> fst (SQLiteCache_get loads True now s k1) = None
            \<and> fst (SQLiteCache_get loads True now s k2) = None
            \<and> fst (SQLiteCache_get loads True now s k3) = None
            \<and> fst (SQLiteCache_get loads True now s k4) = Some (loads (dumps v4))
            \<and> fst (SQLiteCache_get loads True now s k5) = Some (loads (dumps v5))"
proof -
  from assms(4) have t: "t1 \<le> t2" "t2 \<le> t3" "t3 \<le> t4" "t4 \<le> t5" by simp_all
  from assms(3) have k: "k1 \<noteq> k2" "k1 \<noteq> k3" "k2 \<noteq> k3" "k2 \<noteq> k4" "k3 \<noteq> k4"
    "k3 \<noteq> k5" "k4 \<noteq> k5" by simp_all
  let ?d2 = "snd (SQLiteCache_insert dumps True t2
              (snd (SQLiteCache_insert dumps True t1 d (k1, v1))) (k2, v2))"
  have s2: "?d2 = SQLiteCache_init 2 [\<lparr>key = k1, val = dumps v1, last_accessed = t1\<rparr>,
                                      \<lparr>key = k2, val = dumps v2, last_accessed = t2\<rparr>]"
    by (rule SQLiteCache_second_insert [OF assms(1,2) t(1) k(1)])
  have s3: "snd (SQLiteCache_insert dumps True t3 ?d2 (k3, v3))
      = SQLiteCache_init 2 [\<lparr>key = k2, val = dumps v2, last_accessed = t2\<rparr>,
                            \<lparr>key = k3, val = dumps v3, last_accessed = t3\<rparr>]"
    unfolding s2 by (rule SQLiteCache_insert_third [OF t(1,2) k(1,2,3)])
  have s4: "snd (SQLiteCache_insert dumps True t4
                  (snd (SQLiteCache_insert dumps True t3 ?d2 (k3, v3))) (k4, v4))
      = SQLiteCache_init 2 [\<lparr>key = k3, val = dumps v3, last_accessed = t3\<rparr>,
                            \<lparr>key = k4, val = dumps v4, last_accessed = t4\<rparr>]"
    unfolding s3 by (rule SQLiteCache_insert_third [OF t(2,3) k(3,4,5)])
  have s5: "snd (SQLiteCache_insert dumps True t5
                  (snd (SQLiteCache_insert dumps True t4
                    (snd (SQLiteCache_insert dumps True t3 ?d2 (k3, v3))) (k4, v4))) (k5, v5))
      = SQLiteCache_init 2 [\<lparr>key = k4, val = dumps v4, last_accessed = t4\<rparr>,
                            \<lparr>key = k5, val = dumps v5, last_accessed = t5\<rparr>]"
    unfolding s4 by (rule SQLiteCache_insert_third [OF t(3,4) k(5,6,7)])
  have s: "SQLiteCache_inserts dumps True d
             [(t1, k1, v1), (t2, k2, v2), (t3, k3, v3), (t4, k4, v4), (t5, k5, v5)]
      = SQLiteCache_init 2 [\<lparr>key = k4, val = dumps v4, last_accessed = t4\<rparr>,
                            \<lparr>key = k5, val = dumps v5, last_accessed = t5\<rparr>]"
    using s5 by (simp add: SQLiteCache_inserts_def)
  show ?thesis
    unfolding s Let_def using assms(3)
    by (auto simp: SQLiteCache_init_def SQLiteCache_get_def SQLiteCache_get_body_def
        require_cache_enabled_def)
qed

theorem C6_bulk_eviction_witness:
  "(let s = SQLiteCache_inserts id True
             \<lparr>max_size = 2, rows = [\<lparr>key = ''x'', val = 8::int, last_accessed = 7\<rparr>,
                                     \<lparr>key = ''k3'', val = 9, last_accessed = 6\<rparr>,
                                     \<lparr>key = ''y'', val = 0, last_accessed = 7\<rparr>]\<rparr>
             [(7, ''k1'', 1::int), (7, ''k2'', 2), (7, ''k3'', 3), (7, ''k4'', 4), (7, ''k5'', 5)]
    in map key (rows s) = [''k4'', ''k5'']
       \<and> fst (SQLiteCache_get id True 8 s ''k1'') = None
       \<and> fst (SQLiteCache_get id True 8 s ''k2'') = None
       \<and> fst (SQLiteCache_get id True 8 s ''k3'') = None
       \<and> fst (SQLiteCache_get id True 8 s ''k4'') = Some 4
       \<and> fst (SQLiteCache_get id True 8 s ''k5'') = Some 5)"
  using C6_bulk_eviction [where d =
        "\<lparr>max_size = 2, rows = [\<lparr>key = ''x'', val = 8::int, last_accessed = 7\<rparr>,
                                \<lparr>key = ''k3'', val = 9, last_accessed = 6\<rparr>,
                                \<lparr>key = ''y'', val = 0, last_accessed = 7\<rparr>]\<rparr>"
      and ?k1.0 = "''k1''" and ?k2.0 = "''k2''" and ?k3.0 = "''k3''"
      and ?k4.0 = "''k4''" and ?k5.0 = "''k5''"
      and ?t1.0 = 7 and ?t2.0 = 7 and ?t3.0 = 7 and ?t4.0 = 7 and ?t5.0 = 7
      and ?v1.0 = "1::int" and ?v2.0 = 2 and ?v3.0 = 3 and ?v4.0 = 4 and ?v5.0 = 5
      and dumps = id and loads = id and now = 8]
  by simp

end
